theory Spec2Isabelle
  imports Complex_Main
begin

section \<open>Cover tree (covertree.py): data model\<close>

text \<open>
  The embedding follows \<^verbatim>\<open>src/covertree/covertree.py\<close> (Python 2).
  Conventions:
  \<^item> Python exceptions are values of \<open>error\<close>; a method that can raise returns
    \<open>error + 'r\<close> with \<open>Inl\<close> the exception.
  \<^item> \<open>Node\<close> objects live in an object store, the list \<open>nodes\<close>; a reference to a
    \<open>Node\<close> is its index in the store. A Python reference always points to a live
    object, so every reference the code holds is below the length of the store.
  \<^item> Distances and \<open>base ** i\<close> are real numbers (Python floats idealised).
  \<^item> \<open>random.choice\<close> takes the drawn number as an explicit argument.
  \<^item> The two \<open>while\<close> loops take a bound on the number of iterations they may
    run; the result \<open>None\<close> says that the loop needs more iterations than that.
\<close>

datatype error =
    AttributeError          \<comment> \<open>attribute access on \<open>None\<close>\<close>
  | IndexError              \<comment> \<open>\<open>xs[-1]\<close>, \<open>xs[0]\<close> or \<open>choice(xs)\<close> on an empty list\<close>
  | ValueError              \<comment> \<open>\<open>min\<close> of an empty list\<close>
  | ZeroDivisionError       \<comment> \<open>\<open>0 ** i\<close> for negative \<open>i\<close>\<close>
  | EmptyTreeError          \<comment> \<open>named by the specification; raised nowhere in the source\<close>
  | InvalidLevelRangeError  \<comment> \<open>named by the specification; raised nowhere in the source\<close>

record 'a Node =
  data :: 'a
  children :: "int \<rightharpoonup> nat list"
  parent :: "nat option"

text \<open>\<^verbatim>\<open>Node.__init__(self, data)\<close>\<close>

definition Node_init :: "'a \<Rightarrow> 'a Node" where
  "Node_init d = \<lparr>data = d, children = Map.empty, parent = None\<rparr>"

text \<open>
  \<^verbatim>\<open>Node.addChild(self, child, level)\<close> on the object store \<open>h\<close>: the lookup
  \<^verbatim>\<open>self.children[level]\<close> either succeeds (append unless already there) or raises
  \<^verbatim>\<open>KeyError\<close>, which the handler turns into a fresh one-element list; the
  assignment \<^verbatim>\<open>child.parent = self\<close> follows the \<^verbatim>\<open>try\<close> statement.
\<close>

definition addChild :: "'a Node list \<Rightarrow> nat \<Rightarrow> nat \<Rightarrow> int \<Rightarrow> 'a Node list" where
  "addChild h self child level =
     (let s = h ! self;
          h1 = (case children s level of
                  Some cs \<Rightarrow>
                    if child \<notin> set cs
                    then h[self := s\<lparr>children := (children s)(level \<mapsto> cs @ [child])\<rparr>]
                    else h
                | None \<Rightarrow> h[self := s\<lparr>children := (children s)(level \<mapsto> [child])\<rparr>])
      in h1[child := (h1 ! child)\<lparr>parent := Some self\<rparr>])"

text \<open>\<^verbatim>\<open>Node.getOnlyChildren(self, level)\<close>\<close>

definition getOnlyChildren :: "'a Node \<Rightarrow> int \<Rightarrow> nat list" where
  "getOnlyChildren n level = (case children n level of Some cs \<Rightarrow> cs | None \<Rightarrow> [])"

record 'a CoverTree =
  distance :: "'a \<Rightarrow> 'a \<Rightarrow> real"
  root_node :: "nat option"
  maxlevel :: int
  minlevel :: int
  base :: real
  nodes :: "'a Node list"

text \<open>\<^verbatim>\<open>CoverTree.__init__(self, distance, root=None, maxlevel, base)\<close> with the default root.\<close>

definition CoverTree_init :: "('a \<Rightarrow> 'a \<Rightarrow> real) \<Rightarrow> int \<Rightarrow> real \<Rightarrow> 'a CoverTree" where
  "CoverTree_init dfun maxl b =
     \<lparr>distance = dfun, root_node = None, maxlevel = maxl, minlevel = maxl, base = b, nodes = []\<rparr>"

section \<open>Library functions of Python the code calls\<close>

text \<open>\<^verbatim>\<open>min(xs)\<close>: raises \<^verbatim>\<open>ValueError\<close> on an empty list.\<close>

fun py_min :: "real list \<Rightarrow> error + real" where
  "py_min [] = Inl ValueError"
| "py_min (x # xs) = Inr (fold min xs x)"

text \<open>
  \<^verbatim>\<open>heapq.nsmallest(k, xs)\<close> is \<^verbatim>\<open>sorted(xs)[:k]\<close>, and the empty list for \<open>k \<le> 0\<close>;
  with a key it is \<^verbatim>\<open>sorted(xs, key=key)[:k]\<close>, a stable sort.
\<close>

definition nsmallest :: "int \<Rightarrow> real list \<Rightarrow> real list" where
  "nsmallest k xs = take (nat k) (sort xs)"

definition nsmallest_key :: "int \<Rightarrow> ('b \<Rightarrow> real) \<Rightarrow> 'b list \<Rightarrow> 'b list" where
  "nsmallest_key k f xs = take (nat k) (sort_key f xs)"

text \<open>
  \<^verbatim>\<open>random.choice(xs)\<close> with the drawn number \<open>r\<close>: the element at index
  \<open>r mod len(xs)\<close>, and \<^verbatim>\<open>IndexError\<close> on an empty list.
\<close>

definition choice :: "'b list \<Rightarrow> nat \<Rightarrow> error + 'b" where
  "choice xs r = (if xs = [] then Inl IndexError else Inr (xs ! (r mod length xs)))"

text \<open>
  \<^verbatim>\<open>self.base ** i\<close> is \<open>base powi i\<close>, except that Python raises
  \<^verbatim>\<open>ZeroDivisionError\<close> for base \<open>0\<close> and a negative exponent.
\<close>

definition pow_raises :: "real \<Rightarrow> int \<Rightarrow> bool" where
  "pow_raises b i \<longleftrightarrow> b = 0 \<and> i < 0"

text \<open>
  The list comprehension \<^verbatim>\<open>[(q, d) for q, d in zip(Q, Q_p_ds) if d <= slack + base**i]\<close>:
  the power is evaluated once for each pair, so it raises only when there is a pair.
\<close>

definition select_within :: "real \<Rightarrow> int \<Rightarrow> real \<Rightarrow> (nat \<times> real) list \<Rightarrow> error + (nat \<times> real) list" where
  "select_within b i slack Qd =
     (if Qd \<noteq> [] \<and> pow_raises b i then Inl ZeroDivisionError
      else Inr (filter (\<lambda>(q, d). d \<le> slack + b powi i) Qd))"

section \<open>CoverTree: the descent primitive and the four traversals\<close>

text \<open>\<^verbatim>\<open>CoverTree.getChildrenDist(self, p, Qi, Qi_p_ds, i)\<close>\<close>

definition getChildrenDist ::
  "'a CoverTree \<Rightarrow> 'a \<Rightarrow> nat list \<Rightarrow> real list \<Rightarrow> int \<Rightarrow> nat list \<times> real list" where
  "getChildrenDist T p Qi Qi_p_ds i =
     (let Q = concat (map (\<lambda>n. getOnlyChildren (nodes T ! n) i) Qi);
          Q_p_ds = map (\<lambda>q. distance T p (data (nodes T ! q))) Q
      in (Qi @ Q, Qi_p_ds @ Q_p_ds))"

text \<open>\<^verbatim>\<open>CoverTree.args_min(self, Q, Q_p_ds, k)\<close>\<close>

definition args_min :: "'a CoverTree \<Rightarrow> nat list \<Rightarrow> real list \<Rightarrow> int \<Rightarrow> 'a list" where
  "args_min T Q Q_p_ds k =
     map (\<lambda>(q, _). data (nodes T ! q)) (nsmallest_key k snd (zip Q Q_p_ds))"

text \<open>
  The \<^verbatim>\<open>while True\<close> loop of \<^verbatim>\<open>insert_iter\<close>; the first argument bounds the number
  of iterations. When line 157 has evaluated \<^verbatim>\<open>self.base**i\<close> without raising, the
  powers of lines 161 and 168 cannot raise either.
\<close>

fun insert_loop ::
  "nat \<Rightarrow> 'a CoverTree \<Rightarrow> nat \<Rightarrow> 'a \<Rightarrow> nat list \<Rightarrow> real list \<Rightarrow> int \<Rightarrow> (error + 'a CoverTree) option" where
  "insert_loop 0 T r p Qi Qi_p_ds i = None"
| "insert_loop (Suc n) T r p Qi Qi_p_ds i =
     (case getChildrenDist T p Qi Qi_p_ds i of (Q, Q_p_ds) \<Rightarrow>
      (case py_min Q_p_ds of
         Inl e \<Rightarrow> Some (Inl e)
       | Inr d_p_Q \<Rightarrow>
           if d_p_Q = 0 then Some (Inr T)
           else if pow_raises (base T) i then Some (Inl ZeroDivisionError)
           else if d_p_Q > base T powi i then
             (let pi' = i + 1;
                  possParents = map fst (filter (\<lambda>(q, d). d \<le> base T powi pi') (zip Qi Qi_p_ds))
              in case choice possParents r of
                   Inl e \<Rightarrow> Some (Inl e)
                 | Inr q \<Rightarrow>
                     Some (Inr (T\<lparr>minlevel := min (minlevel T) pi',
                                  nodes := addChild (nodes T @ [Node_init p]) q (length (nodes T)) pi'\<rparr>)))
           else
             (let zn = filter (\<lambda>(q, d). d \<le> base T powi i) (zip Q Q_p_ds)
              in insert_loop n T r p (map fst zn) (map snd zn) (i - 1))))"

text \<open>\<^verbatim>\<open>CoverTree.insert_iter(self, p)\<close>\<close>

definition insert_iter :: "nat \<Rightarrow> 'a CoverTree \<Rightarrow> nat \<Rightarrow> 'a \<Rightarrow> (error + 'a CoverTree) option" where
  "insert_iter n T r p =
     (case root_node T of
        None \<Rightarrow> Some (Inl AttributeError)
      | Some rt \<Rightarrow> insert_loop n T r p [rt] [distance T p (data (nodes T ! rt))] (maxlevel T))"

text \<open>\<^verbatim>\<open>CoverTree.insert(self, p)\<close>\<close>

definition insert_ct :: "nat \<Rightarrow> 'a CoverTree \<Rightarrow> nat \<Rightarrow> 'a \<Rightarrow> (error + 'a CoverTree) option" where
  "insert_ct n T r p =
     (if root_node T = None
      then Some (Inr (T\<lparr>root_node := Some (length (nodes T)), nodes := nodes T @ [Node_init p]\<rparr>))
      else insert_iter n T r p)"

text \<open>
  The \<^verbatim>\<open>for\<close> loop of \<^verbatim>\<open>knn_iter\<close> over the levels
  \<^verbatim>\<open>reversed(xrange(self.minlevel, self.maxlevel + 1))\<close>.
\<close>

fun knn_loop ::
  "'a CoverTree \<Rightarrow> 'a \<Rightarrow> int \<Rightarrow> nat list \<Rightarrow> real list \<Rightarrow> int list \<Rightarrow> error + (nat list \<times> real list)" where
  "knn_loop T p k Qi Qi_p_ds [] = Inr (Qi, Qi_p_ds)"
| "knn_loop T p k Qi Qi_p_ds (i # levels) =
     (case getChildrenDist T p Qi Qi_p_ds i of (Q, Q_p_ds) \<Rightarrow>
      (let d_k = nsmallest k Q_p_ds in
       if d_k = [] then Inl IndexError
       else
         (case select_within (base T) i (last d_k) (zip Q Q_p_ds) of
            Inl e \<Rightarrow> Inl e
          | Inr zn \<Rightarrow> knn_loop T p k (map fst zn) (map snd zn) levels)))"

definition knn_levels :: "'a CoverTree \<Rightarrow> int list" where
  "knn_levels T = rev [minlevel T..maxlevel T]"

text \<open>\<^verbatim>\<open>CoverTree.knn_iter(self, p, k)\<close> and \<^verbatim>\<open>CoverTree.knn(self, p, k)\<close>\<close>

definition knn_iter :: "'a CoverTree \<Rightarrow> 'a \<Rightarrow> int \<Rightarrow> error + 'a list" where
  "knn_iter T p k =
     (case root_node T of
        None \<Rightarrow> Inl AttributeError
      | Some rt \<Rightarrow>
          (case knn_loop T p k [rt] [distance T p (data (nodes T ! rt))] (knn_levels T) of
             Inl e \<Rightarrow> Inl e
           | Inr (Qi, Qi_p_ds) \<Rightarrow> Inr (args_min T Qi Qi_p_ds k)))"

definition knn :: "'a CoverTree \<Rightarrow> 'a \<Rightarrow> int \<Rightarrow> error + 'a list" where
  "knn T p k = knn_iter T p k"

text \<open>
  The \<^verbatim>\<open>while not found_parent or i >= self.minlevel\<close> loop of
  \<^verbatim>\<open>knn_insert_iter\<close>; the first argument bounds the number of iterations. The
  variables \<^verbatim>\<open>found_parent\<close>, \<^verbatim>\<open>pi\<close> and \<^verbatim>\<open>parent\<close> are one option value
  \<open>fp\<close>: \<open>None\<close> while \<^verbatim>\<open>found_parent\<close> is false, \<open>Some (pi, parent)\<close> after.
  The loop returns the final \<open>Qi\<close>, \<open>Qi_p_ds\<close>, \<open>pi\<close> and \<open>parent\<close>.
\<close>

fun knn_insert_loop ::
  "nat \<Rightarrow> 'a CoverTree \<Rightarrow> nat \<Rightarrow> 'a \<Rightarrow> int \<Rightarrow> nat list \<Rightarrow> real list \<Rightarrow> int \<Rightarrow> (int \<times> nat) option
     \<Rightarrow> (error + (nat list \<times> real list \<times> int \<times> nat)) option" where
  "knn_insert_loop n T r p k Qi Qi_p_ds i (Some (pi', par)) =
     (if i < minlevel T then Some (Inr (Qi, Qi_p_ds, pi', par))
      else
        (case n of
           0 \<Rightarrow> None
         | Suc m \<Rightarrow>
            (case getChildrenDist T p Qi Qi_p_ds i of (Q, Q_p_ds) \<Rightarrow>
             (let d_k = nsmallest k Q_p_ds in
              if d_k = [] then Some (Inl IndexError)
              else
                (case select_within (base T) i (last d_k) (zip Q Q_p_ds) of
                   Inl e \<Rightarrow> Some (Inl e)
                 | Inr zn \<Rightarrow>
                     knn_insert_loop m T r p k (map fst zn) (map snd zn) (i - 1) (Some (pi', par)))))))"
| "knn_insert_loop 0 T r p k Qi Qi_p_ds i None = None"
| "knn_insert_loop (Suc m) T r p k Qi Qi_p_ds i None =
     (case getChildrenDist T p Qi Qi_p_ds i of (Q, Q_p_ds) \<Rightarrow>
      (let d_k = nsmallest k Q_p_ds in
       if d_k = [] then Some (Inl IndexError)
       else
         (let d_p_Q_h = last d_k; d_p_Q_l = hd d_k in
          if pow_raises (base T) i then Some (Inl ZeroDivisionError)
          else
            (case (if d_p_Q_l > base T powi i
                   then (case choice (map fst (filter (\<lambda>(q, d). d \<le> base T powi (i + 1))
                                                 (zip Qi Qi_p_ds))) r of
                           Inl e \<Rightarrow> Inl e
                         | Inr par \<Rightarrow> Inr (Some (i + 1, par)))
                   else Inr None) of
               Inl e \<Rightarrow> Some (Inl e)
             | Inr fp \<Rightarrow>
                 (let zn = filter (\<lambda>(q, d). d \<le> d_p_Q_h + base T powi i) (zip Q Q_p_ds)
                  in knn_insert_loop m T r p k (map fst zn) (map snd zn) (i - 1) fp)))))"

text \<open>
  \<^verbatim>\<open>CoverTree.knn_insert_iter(self, p, k)\<close> and \<^verbatim>\<open>CoverTree.knn_insert(self, p, k)\<close>:
  the result list together with the tree after the attachment.
\<close>

definition knn_insert_iter ::
  "nat \<Rightarrow> 'a CoverTree \<Rightarrow> nat \<Rightarrow> 'a \<Rightarrow> int \<Rightarrow> (error + ('a list \<times> 'a CoverTree)) option" where
  "knn_insert_iter n T r p k =
     (case root_node T of
        None \<Rightarrow> Some (Inl AttributeError)
      | Some rt \<Rightarrow>
          (case knn_insert_loop n T r p k [rt] [distance T p (data (nodes T ! rt))] (maxlevel T) None of
             None \<Rightarrow> None
           | Some (Inl e) \<Rightarrow> Some (Inl e)
           | Some (Inr (Qi, Qi_p_ds, pi', par)) \<Rightarrow>
               (let T' = T\<lparr>minlevel := min (minlevel T) pi',
                           nodes := addChild (nodes T @ [Node_init p]) par (length (nodes T)) pi'\<rparr>
                in Some (Inr (args_min T' Qi Qi_p_ds k, T')))))"

definition knn_insert ::
  "nat \<Rightarrow> 'a CoverTree \<Rightarrow> nat \<Rightarrow> 'a \<Rightarrow> int \<Rightarrow> (error + ('a list \<times> 'a CoverTree)) option" where
  "knn_insert n T r p k = knn_insert_iter n T r p k"

text \<open>
  \<^verbatim>\<open>CoverTree.find_rec(self, p, Qi, Qi_p_ds, i)\<close>: the expansion and the pruning
  come first, then \<^verbatim>\<open>min(Qi_p_ds)\<close>, then the three-way test.
\<close>

function find_rec ::
  "'a CoverTree \<Rightarrow> 'a \<Rightarrow> nat list \<Rightarrow> real list \<Rightarrow> int \<Rightarrow> error + (bool \<times> int option)" where
  "find_rec T p Qi Qi_p_ds i =
     (case getChildrenDist T p Qi Qi_p_ds i of (Q, Q_p_ds) \<Rightarrow>
      (case select_within (base T) i 0 (zip Q Q_p_ds) of
         Inl e \<Rightarrow> Inl e
       | Inr zn \<Rightarrow>
           (case py_min Qi_p_ds of
              Inl e \<Rightarrow> Inl e
            | Inr d_p_Qi \<Rightarrow>
                if i < minlevel T then Inr (False, None)
                else if d_p_Qi = 0 then Inr (True, Some i)
                else find_rec T p (map fst zn) (map snd zn) (i - 1))))"
  by pat_completeness auto
termination
  by (relation "measure (\<lambda>(T, p, Qi, Qi_p_ds, i). nat (i - minlevel T + 1))") auto

text \<open>\<^verbatim>\<open>CoverTree.find(self, p)\<close>\<close>

definition find_ct :: "'a CoverTree \<Rightarrow> 'a \<Rightarrow> error + (bool \<times> int option)" where
  "find_ct T p =
     (case root_node T of
        None \<Rightarrow> Inl AttributeError
      | Some rt \<Rightarrow> find_rec T p [rt] [distance T p (data (nodes T ! rt))] (maxlevel T))"

text \<open>
  The two read-only traversals once more, with a bound on the number of levels
  they may visit. \<open>find_rec_bounded\<close> has the body of \<^verbatim>\<open>find_rec\<close>, and every call
  (one expansion of the candidate set at level \<open>i\<close>) uses one unit of the bound;
  \<open>knn_loop_bounded\<close> has the body of the \<^verbatim>\<open>for\<close> loop of \<^verbatim>\<open>knn_iter\<close>, and
  every iteration uses one unit. The result \<open>None\<close> says that the traversal needs
  to visit more levels than the bound allows.
\<close>

fun find_rec_bounded ::
  "nat \<Rightarrow> 'a CoverTree \<Rightarrow> 'a \<Rightarrow> nat list \<Rightarrow> real list \<Rightarrow> int
     \<Rightarrow> (error + (bool \<times> int option)) option" where
  "find_rec_bounded 0 T p Qi Qi_p_ds i = None"
| "find_rec_bounded (Suc n) T p Qi Qi_p_ds i =
     (case getChildrenDist T p Qi Qi_p_ds i of (Q, Q_p_ds) \<Rightarrow>
      (case select_within (base T) i 0 (zip Q Q_p_ds) of
         Inl e \<Rightarrow> Some (Inl e)
       | Inr zn \<Rightarrow>
           (case py_min Qi_p_ds of
              Inl e \<Rightarrow> Some (Inl e)
            | Inr d_p_Qi \<Rightarrow>
                if i < minlevel T then Some (Inr (False, None))
                else if d_p_Qi = 0 then Some (Inr (True, Some i))
                else find_rec_bounded n T p (map fst zn) (map snd zn) (i - 1))))"

definition find_bounded :: "nat \<Rightarrow> 'a CoverTree \<Rightarrow> 'a \<Rightarrow> (error + (bool \<times> int option)) option" where
  "find_bounded n T p =
     (case root_node T of
        None \<Rightarrow> Some (Inl AttributeError)
      | Some rt \<Rightarrow>
          find_rec_bounded n T p [rt] [distance T p (data (nodes T ! rt))] (maxlevel T))"

fun knn_loop_bounded ::
  "nat \<Rightarrow> 'a CoverTree \<Rightarrow> 'a \<Rightarrow> int \<Rightarrow> nat list \<Rightarrow> real list \<Rightarrow> int list
     \<Rightarrow> (error + (nat list \<times> real list)) option" where
  "knn_loop_bounded n T p k Qi Qi_p_ds [] = Some (Inr (Qi, Qi_p_ds))"
| "knn_loop_bounded 0 T p k Qi Qi_p_ds (i # levels) = None"
| "knn_loop_bounded (Suc n) T p k Qi Qi_p_ds (i # levels) =
     (case getChildrenDist T p Qi Qi_p_ds i of (Q, Q_p_ds) \<Rightarrow>
      (let d_k = nsmallest k Q_p_ds in
       if d_k = [] then Some (Inl IndexError)
       else
         (case select_within (base T) i (last d_k) (zip Q Q_p_ds) of
            Inl e \<Rightarrow> Some (Inl e)
          | Inr zn \<Rightarrow> knn_loop_bounded n T p k (map fst zn) (map snd zn) levels)))"

definition knn_bounded :: "nat \<Rightarrow> 'a CoverTree \<Rightarrow> 'a \<Rightarrow> int \<Rightarrow> (error + 'a list) option" where
  "knn_bounded n T p k =
     (case root_node T of
        None \<Rightarrow> Some (Inl AttributeError)
      | Some rt \<Rightarrow>
          (case knn_loop_bounded n T p k [rt] [distance T p (data (nodes T ! rt))]
                  (rev [minlevel T..maxlevel T]) of
             None \<Rightarrow> None
           | Some (Inl e) \<Rightarrow> Some (Inl e)
           | Some (Inr (Qi, Qi_p_ds)) \<Rightarrow> Some (Inr (args_min T Qi Qi_p_ds k))))"

declare find_rec.simps [simp del]

section \<open>Trees built by the operations\<close>

text \<open>
  The trees a client can build: the constructor, then any sequence of \<^verbatim>\<open>insert\<close>
  and \<^verbatim>\<open>knn_insert\<close> calls that return.
\<close>

inductive reachable :: "'a CoverTree \<Rightarrow> bool" where
  init: "reachable (CoverTree_init dfun maxl b)"
| ins: "reachable T \<Longrightarrow> insert_ct n T r p = Some (Inr T') \<Longrightarrow> reachable T'"
| knn_ins: "reachable T \<Longrightarrow> knn_insert n T r p k = Some (Inr (res, T')) \<Longrightarrow> reachable T'"

text \<open>
  The brute-force scan the specification compares \<^verbatim>\<open>knn\<close> with: all stored
  points, sorted by distance to \<open>p\<close>, the first \<open>k\<close> of them.
\<close>

definition knn_brute_force :: "'a CoverTree \<Rightarrow> 'a \<Rightarrow> int \<Rightarrow> 'a list" where
  "knn_brute_force T p k = take (nat k) (sort_key (distance T p) (map data (nodes T)))"

text \<open>
  The structure every tree built by the operations has: the root is a stored node
  (and an empty tree stores nothing); every entry \<open>c\<close> of a child list of \<open>r\<close> at
  level \<open>l\<close> is a stored node whose parent is \<open>r\<close> and whose point lies within
  \<open>base ** l\<close> of the point of \<open>r\<close>; every stored node but the root stands in a
  child list of its parent.
\<close>

definition cover_inv :: "'a CoverTree \<Rightarrow> bool" where
  "cover_inv T \<longleftrightarrow>
     (case root_node T of
        None \<Rightarrow> nodes T = []
      | Some rt \<Rightarrow> rt < length (nodes T)) \<and>
     (\<forall>r<length (nodes T). \<forall>l. \<forall>c\<in>set (getOnlyChildren (nodes T ! r) l).
        c < length (nodes T) \<and> parent (nodes T ! c) = Some r \<and>
        distance T (data (nodes T ! c)) (data (nodes T ! r)) \<le> base T powi l) \<and>
     (\<forall>c<length (nodes T). root_node T \<noteq> Some c \<longrightarrow>
        (\<exists>r l. r < length (nodes T) \<and> parent (nodes T ! c) = Some r \<and>
               c \<in> set (getOnlyChildren (nodes T ! r) l)))"

text \<open>
  The candidate lists a descent carries: references to stored nodes, each paired
  with the distance from \<open>p\<close> to its point.
\<close>

definition cover_set_ok :: "'a CoverTree \<Rightarrow> 'a \<Rightarrow> nat list \<Rightarrow> real list \<Rightarrow> bool" where
  "cover_set_ok T p Qi ds \<longleftrightarrow>
     (\<forall>q\<in>set Qi. q < length (nodes T)) \<and>
     ds = map (\<lambda>q. distance T p (data (nodes T ! q))) Qi"

section \<open>The scenario of the specification\<close>

text \<open>
  Points on the real line with the absolute difference as distance, \<open>base = 2\<close> and
  \<open>maxlevel = 5\<close>; the trees after inserting \<open>0\<close>, then \<open>1\<close>, then \<open>2\<close>, and after
  inserting \<open>2\<close> a second time.
\<close>

definition absd :: "real \<Rightarrow> real \<Rightarrow> real" where
  "absd a b = \<bar>a - b\<bar>"

definition tree_empty :: "real CoverTree" where
  "tree_empty = CoverTree_init absd 5 2"

definition tree_0 :: "real CoverTree" where
  "tree_0 = \<lparr>distance = absd, root_node = Some 0, maxlevel = 5, minlevel = 5, base = 2,
     nodes = [\<lparr>data = 0, children = Map.empty, parent = None\<rparr>]\<rparr>"

definition tree_01 :: "real CoverTree" where
  "tree_01 = \<lparr>distance = absd, root_node = Some 0, maxlevel = 5, minlevel = 0, base = 2,
     nodes = [\<lparr>data = 0, children = [0 \<mapsto> [1]], parent = None\<rparr>,
              \<lparr>data = 1, children = Map.empty, parent = Some 0\<rparr>]\<rparr>"

definition tree_012 :: "real CoverTree" where
  "tree_012 = \<lparr>distance = absd, root_node = Some 0, maxlevel = 5, minlevel = 0, base = 2,
     nodes = [\<lparr>data = 0, children = [0 \<mapsto> [1]], parent = None\<rparr>,
              \<lparr>data = 1, children = [0 \<mapsto> [2]], parent = Some 0\<rparr>,
              \<lparr>data = 2, children = Map.empty, parent = Some 1\<rparr>]\<rparr>"

definition tree_0122 :: "real CoverTree" where
  "tree_0122 = \<lparr>distance = absd, root_node = Some 0, maxlevel = 5, minlevel = 0, base = 2,
     nodes = [\<lparr>data = 0, children = [0 \<mapsto> [1]], parent = None\<rparr>,
              \<lparr>data = 1, children = [0 \<mapsto> [2, 3]], parent = Some 0\<rparr>,
              \<lparr>data = 2, children = Map.empty, parent = Some 1\<rparr>,
              \<lparr>data = 2, children = Map.empty, parent = Some 1\<rparr>]\<rparr>"

text \<open>The tree after inserting \<open>0\<close> and then \<open>50\<close>.\<close>

definition tree_0_50 :: "real CoverTree" where
  "tree_0_50 = \<lparr>distance = absd, root_node = Some 0, maxlevel = 5, minlevel = 5, base = 2,
     nodes = [\<lparr>data = 0, children = [6 \<mapsto> [1]], parent = None\<rparr>,
              \<lparr>data = 50, children = Map.empty, parent = Some 0\<rparr>]\<rparr>"

section \<open>Evaluating the scenario\<close>

lemmas eval_defs = absd_def insert_ct_def insert_iter_def getChildrenDist_def getOnlyChildren_def
  pow_raises_def choice_def addChild_def Node_init_def power_int_def select_within_def
  nsmallest_def nsmallest_key_def args_min_def knn_def knn_iter_def knn_levels_def find_ct_def
  knn_insert_def knn_insert_iter_def find_rec.simps Let_def

lemma build_0: "insert_ct n tree_empty r 0 = Some (Inr tree_0)"
  by (simp add: tree_empty_def tree_0_def CoverTree_init_def eval_defs)

lemma build_01: "insert_ct 7 tree_0 r 1 = Some (Inr tree_01)"
  by (simp add: tree_0_def tree_01_def eval_defs eval_nat_numeral)

lemma build_012: "insert_ct 7 tree_01 r 2 = Some (Inr tree_012)"
  by (simp add: tree_01_def tree_012_def eval_defs eval_nat_numeral)

text \<open>A larger bound on the iterations does not change what \<^verbatim>\<open>insert\<close> returns.\<close>

lemma insert_loop_mono:
  "insert_loop n T r p Qi ds i = Some x \<Longrightarrow> insert_loop (n + m) T r p Qi ds i = Some x"
proof (induction n arbitrary: Qi ds i)
  case 0
  then show ?case by simp
next
  case (Suc n)
  then show ?case
    by (auto simp add: Let_def split: prod.splits sum.splits if_splits)
qed

lemma insert_ct_mono:
  "insert_ct n T r p = Some x \<Longrightarrow> insert_ct (n + m) T r p = Some x"
  by (auto simp add: insert_ct_def insert_iter_def insert_loop_mono split: option.splits)

lemma insert_100_tree_012: "insert_ct (Suc n) tree_012 r 100 = Some (Inl IndexError)"
  by (simp add: tree_012_def eval_defs)

lemma knn_tree_012: "knn tree_012 (3/2) 2 = Inr [1, 0]"
  by (simp add: tree_012_def eval_defs upto.simps)

lemma find_50_tree_012: "find_ct tree_012 50 = Inl ValueError"
  by (simp add: tree_012_def eval_defs)

section \<open>Node.addChild\<close>

lemma addChild_length: "length (addChild h s c l) = length h"
  by (simp add: addChild_def Let_def split: option.split)

lemma addChild_parent:
  "child < length h \<Longrightarrow> parent (addChild h self child level ! child) = Some self"
  by (simp add: addChild_def Let_def split: option.split)

lemma addChild_other:
  "r \<noteq> self \<Longrightarrow> children (addChild h self child level ! r) = children (h ! r)"
  by (cases "r = child"; cases "child < length h")
     (auto simp add: addChild_def Let_def nth_list_update list_update_beyond split: option.split)

lemma addChild_data: "data (addChild h self child level ! r) = data (h ! r)"
  by (cases "r = child"; cases "child < length h"; cases "r = self"; cases "self < length h")
     (auto simp add: addChild_def Let_def nth_list_update list_update_beyond split: option.split)

lemma addChild_present:
  "child \<in> set (getOnlyChildren (h ! self) level) \<Longrightarrow>
   children (addChild h self child level ! self) = children (h ! self)"
  by (cases "self = child"; cases "child < length h")
     (auto simp add: addChild_def getOnlyChildren_def Let_def nth_list_update list_update_beyond
           split: option.splits)

lemma addChild_absent:
  "self < length h \<Longrightarrow> child \<notin> set (getOnlyChildren (h ! self) level) \<Longrightarrow>
   getOnlyChildren (addChild h self child level ! self) l =
     (if l = level then getOnlyChildren (h ! self) level @ [child]
      else getOnlyChildren (h ! self) l)"
  by (cases "self = child"; cases "child < length h")
     (auto simp add: addChild_def getOnlyChildren_def Let_def nth_list_update list_update_beyond
           split: option.splits)

text \<open>
  Claim C10. \<^verbatim>\<open>addChild(child, level)\<close> always makes the receiver the parent of
  \<open>child\<close>: when \<open>child\<close> is already in the receiver's list at \<open>level\<close> the child
  lists stay as they are and only the append is skipped, otherwise \<open>child\<close> is
  appended. A node that had another parent \<open>old\<close> is re-parented and still stands in
  every child list of \<open>old\<close> it stood in before.
\<close>

theorem addChild_always_reparents:
  assumes "self < length h" and "child < length h"
  shows "parent (addChild h self child level ! child) = Some self
    \<and> (child \<in> set (getOnlyChildren (h ! self) level) \<longrightarrow>
         children (addChild h self child level ! self) = children (h ! self))
    \<and> (child \<notin> set (getOnlyChildren (h ! self) level) \<longrightarrow>
         getOnlyChildren (addChild h self child level ! self) level
           = getOnlyChildren (h ! self) level @ [child])
    \<and> (\<forall>old l. parent (h ! child) = Some old \<and> old \<noteq> self
           \<and> child \<in> set (getOnlyChildren (h ! old) l) \<longrightarrow>
         child \<in> set (getOnlyChildren (addChild h self child level ! old) l))"
  using assms addChild_parent[of child h self level] addChild_present[of child h self level]
    addChild_absent[of self h child level level]
  by (auto simp add: getOnlyChildren_def addChild_other)

text \<open>
  In the tree holding \<open>0\<close>, \<open>1\<close> and \<open>2\<close>, node \<open>1\<close> is a child of node \<open>0\<close> at level
  \<open>0\<close>. Adding it to node \<open>2\<close> at level \<open>3\<close> makes node \<open>2\<close> its parent and leaves it
  in the list of node \<open>0\<close>; adding it to node \<open>0\<close> at level \<open>0\<close> again changes no list.
\<close>

theorem addChild_always_reparents_witness:
  "parent (addChild (nodes tree_012) 2 1 3 ! 1) = Some 2
   \<and> getOnlyChildren (addChild (nodes tree_012) 2 1 3 ! 2) 3 = [1]
   \<and> 1 \<in> set (getOnlyChildren (addChild (nodes tree_012) 2 1 3 ! 0) 0)
   \<and> parent (addChild (nodes tree_012) 0 1 0 ! 1) = Some 0
   \<and> children (addChild (nodes tree_012) 0 1 0 ! 0) = children (nodes tree_012 ! 0)"
proof -
  have len: "(2::nat) < length (nodes tree_012)" "(1::nat) < length (nodes tree_012)"
    "(0::nat) < length (nodes tree_012)"
    by (simp_all add: tree_012_def)
  have old: "parent (nodes tree_012 ! 1) = Some 0" "(0::nat) \<noteq> 2"
    "1 \<in> set (getOnlyChildren (nodes tree_012 ! 0) 0)"
    "1 \<notin> set (getOnlyChildren (nodes tree_012 ! 2) 3)"
    "getOnlyChildren (nodes tree_012 ! 2) 3 = []"
    by (simp_all add: tree_012_def getOnlyChildren_def)
  from addChild_always_reparents[OF len(1) len(2), of 3] old
  have a: "parent (addChild (nodes tree_012) 2 1 3 ! 1) = Some 2"
    and b: "getOnlyChildren (addChild (nodes tree_012) 2 1 3 ! 2) 3 = [1]"
    and c: "1 \<in> set (getOnlyChildren (addChild (nodes tree_012) 2 1 3 ! 0) 0)"
    by auto
  from addChild_always_reparents[OF len(3) len(2), of 0] old
  have d: "parent (addChild (nodes tree_012) 0 1 0 ! 1) = Some 0"
    and e: "children (addChild (nodes tree_012) 0 1 0 ! 0) = children (nodes tree_012 ! 0)"
    by auto
  from a b c d e show ?thesis by simp
qed

section \<open>The empty tree\<close>

text \<open>
  Claim C5, as the code has it. On an empty tree (\<^verbatim>\<open>root\<close> is \<^verbatim>\<open>None\<close>),
  \<^verbatim>\<open>knn\<close>, \<^verbatim>\<open>knn_insert\<close> and \<^verbatim>\<open>find\<close> all raise \<^verbatim>\<open>AttributeError\<close>: each one
  starts by reading \<^verbatim>\<open>self.root.data\<close>.
\<close>

theorem empty_tree_raises_AttributeError:
  assumes "root_node T = None"
  shows "knn T p k = Inl AttributeError
    \<and> knn_insert n T r p k = Some (Inl AttributeError)
    \<and> find_ct T p = Inl AttributeError"
  using assms by (simp add: knn_def knn_iter_def knn_insert_def knn_insert_iter_def find_ct_def)

theorem empty_tree_raises_AttributeError_witness:
  "root_node tree_empty = None
   \<and> knn tree_empty 0 1 = Inl AttributeError
   \<and> knn_insert 0 tree_empty 0 0 1 = Some (Inl AttributeError)
   \<and> find_ct tree_empty 0 = Inl AttributeError"
proof -
  have h: "root_node tree_empty = None"
    by (simp add: tree_empty_def CoverTree_init_def)
  from empty_tree_raises_AttributeError[OF h, of 0 1 0 0] h show ?thesis by simp
qed

text \<open>
  Claim C5, as stated, fails on the freshly constructed tree: none of the three
  calls raises \<^verbatim>\<open>EmptyTreeError\<close>; what the caller sees is the failed attribute
  access on the absent root.
\<close>

theorem empty_tree_no_EmptyTreeError:
  "knn tree_empty 0 1 \<noteq> Inl EmptyTreeError
   \<and> knn_insert 1 tree_empty 0 0 1 \<noteq> Some (Inl EmptyTreeError)
   \<and> find_ct tree_empty 0 \<noteq> Inl EmptyTreeError
   \<and> find_ct tree_empty 0 = Inl AttributeError"
  by (simp add: tree_empty_def CoverTree_init_def eval_defs)

section \<open>Nearest neighbours\<close>

text \<open>
  Claim C1, evaluated on the code. The tree is built by three \<^verbatim>\<open>insert\<close> calls
  (\<open>0\<close>, \<open>1\<close>, \<open>2\<close>). \<^verbatim>\<open>insert(2)\<close> attaches \<open>2\<close> under node \<open>1\<close> at level \<open>0\<close>,
  the level at which node \<open>1\<close> itself hangs under the root, and no descent expands
  level \<open>0\<close> of a node it has only just reached at level \<open>0\<close>. So \<^verbatim>\<open>knn(1.5, 2)\<close>
  returns \<open>1\<close> and \<open>0\<close>, while the two nearest stored points are \<open>1\<close> and \<open>2\<close>.
\<close>

theorem knn_misses_nearest_neighbour:
  "insert_ct 7 tree_empty 0 0 = Some (Inr tree_0)
   \<and> insert_ct 7 tree_0 0 1 = Some (Inr tree_01)
   \<and> insert_ct 7 tree_01 0 2 = Some (Inr tree_012)
   \<and> knn tree_012 (3/2) 2 = Inr [1, 0]
   \<and> knn_brute_force tree_012 (3/2) 2 = [1, 2]"
proof -
  have "knn_brute_force tree_012 (3/2) 2 = [1, 2]"
    by (simp add: tree_012_def knn_brute_force_def absd_def)
  then show ?thesis
    by (simp add: build_0 build_01 build_012 knn_tree_012)
qed

text \<open>
  Claim C9, evaluated on the code. The same tree stores three points; with
  \<open>k = 5\<close> the call does not fail, but it returns only \<open>1\<close> and \<open>0\<close>: the stored point
  \<open>2\<close> is missing from the result.
\<close>

theorem knn_large_k_misses_stored_point:
  "insert_ct 7 tree_empty 0 0 = Some (Inr tree_0)
   \<and> insert_ct 7 tree_0 0 1 = Some (Inr tree_01)
   \<and> insert_ct 7 tree_01 0 2 = Some (Inr tree_012)
   \<and> length (nodes tree_012) = 3
   \<and> knn tree_012 (3/2) 5 = Inr [1, 0]
   \<and> knn_brute_force tree_012 (3/2) 5 = [1, 2, 0]"
proof -
  have a: "knn tree_012 (3/2) 5 = Inr [1, 0]"
    by (simp add: tree_012_def eval_defs upto.simps)
  have b: "knn_brute_force tree_012 (3/2) 5 = [1, 2, 0]"
    by (simp add: tree_012_def knn_brute_force_def absd_def)
  have c: "length (nodes tree_012) = 3"
    by (simp add: tree_012_def)
  from a b c show ?thesis
    by (simp add: build_0 build_01 build_012)
qed

section \<open>Find\<close>

text \<open>
  Claim C2, evaluated on the code. After \<^verbatim>\<open>insert(0)\<close> and \<^verbatim>\<open>insert(1)\<close>,
  \<^verbatim>\<open>find(1)\<close> reports not-found: node \<open>1\<close> hangs at level \<open>0 = minlevel\<close>, it enters
  the pre-expansion set only at level \<open>-1\<close>, and there the test \<^verbatim>\<open>i < self.minlevel\<close>
  comes before the test for distance zero. After \<^verbatim>\<open>insert(2)\<close>, \<^verbatim>\<open>find(2)\<close> reports
  not-found as well, and \<^verbatim>\<open>find(50)\<close>, for a point never inserted, raises
  \<^verbatim>\<open>ValueError\<close> (\<^verbatim>\<open>min\<close> of the emptied candidate list) instead of reporting
  not-found.
\<close>

theorem find_misses_inserted_points:
  "insert_ct 7 tree_empty 0 0 = Some (Inr tree_0)
   \<and> insert_ct 7 tree_0 0 1 = Some (Inr tree_01)
   \<and> find_ct tree_01 1 = Inr (False, None)
   \<and> insert_ct 7 tree_01 0 2 = Some (Inr tree_012)
   \<and> find_ct tree_012 2 = Inr (False, None)
   \<and> find_ct tree_012 50 = Inl ValueError"
proof -
  have a: "find_ct tree_01 1 = Inr (False, None)"
    by (simp add: tree_01_def eval_defs)
  have b: "find_ct tree_012 2 = Inr (False, None)"
    by (simp add: tree_012_def eval_defs)
  from a b show ?thesis
    by (simp add: build_0 build_01 build_012 find_50_tree_012)
qed

section \<open>Duplicate points\<close>

text \<open>
  On the tree that holds only \<open>0\<close>, the loop of \<^verbatim>\<open>knn_insert(0, 1)\<close> never finds a
  parent: the smallest distance stays \<open>0\<close>, which exceeds no \<open>2 ** i\<close>, so
  \<^verbatim>\<open>found_parent\<close> stays false at every level.
\<close>

lemma knn_insert_loop_duplicate_root:
  "knn_insert_loop n tree_0 r 0 1 [0] [0] i None = None"
proof (induction n arbitrary: i)
  case 0
  show ?case by simp
next
  case (Suc n)
  have neg: "((2::real) powi i < 0) = False" by (simp add: not_less)
  show ?case using Suc[of "i - 1"]
    by (simp add: tree_0_def getChildrenDist_def getOnlyChildren_def nsmallest_def
        pow_raises_def Let_def neg)
qed

text \<open>
  Claim C3, evaluated on the code. In the tree built from \<open>0\<close>, \<open>1\<close>, \<open>2\<close> a second
  \<^verbatim>\<open>insert(2)\<close> does not meet the stored \<open>2\<close> and attaches a fourth node; and
  \<^verbatim>\<open>knn_insert(0, 1)\<close> on the tree holding only \<open>0\<close> does not return within any
  number of iterations.
\<close>

theorem duplicate_insert_mutates_and_knn_insert_diverges:
  "insert_ct 7 tree_012 r 2 = Some (Inr tree_0122)
   \<and> length (nodes tree_012) = 3 \<and> length (nodes tree_0122) = 4
   \<and> knn_insert n tree_0 r 0 1 = None"
proof -
  have a: "insert_ct 7 tree_012 r 2 = Some (Inr tree_0122)"
    by (simp add: tree_012_def tree_0122_def eval_defs eval_nat_numeral)
  have b: "length (nodes tree_012) = 3 \<and> length (nodes tree_0122) = 4"
    by (simp add: tree_012_def tree_0122_def)
  have "knn_insert_loop n tree_0 r 0 1 [0] [absd 0 0] 5 None = None"
    using knn_insert_loop_duplicate_root[of n r 5] by (simp add: absd_def)
  then have c: "knn_insert n tree_0 r 0 1 = None"
    by (simp add: knn_insert_def knn_insert_iter_def tree_0_def)
  from a b c show ?thesis by simp
qed

section \<open>The scenario as a whole\<close>

text \<open>
  Claim C7, as stated, fails: the fourth call, \<^verbatim>\<open>insert(100)\<close>, raises
  \<^verbatim>\<open>IndexError\<close>. On the tree the three successful calls leave behind,
  \<^verbatim>\<open>knn(1.5, 2)\<close> returns \<open>1\<close> and \<open>0\<close>, and both \<^verbatim>\<open>find(100)\<close> and \<^verbatim>\<open>find(50)\<close>
  raise \<^verbatim>\<open>ValueError\<close>.
\<close>

theorem scenario_as_stated_fails:
  "insert_ct 7 tree_empty 0 0 = Some (Inr tree_0)
   \<and> insert_ct 7 tree_0 0 1 = Some (Inr tree_01)
   \<and> insert_ct 7 tree_01 0 2 = Some (Inr tree_012)
   \<and> insert_ct 7 tree_012 0 100 = Some (Inl IndexError)
   \<and> knn tree_012 (3/2) 2 = Inr [1, 0]
   \<and> find_ct tree_012 100 = Inl ValueError
   \<and> find_ct tree_012 50 = Inl ValueError"
proof -
  have a: "insert_ct 7 tree_012 0 100 = Some (Inl IndexError)"
    using insert_100_tree_012[of 6 0] by simp
  have b: "find_ct tree_012 100 = Inl ValueError"
    by (simp add: tree_012_def eval_defs)
  from a b show ?thesis
    by (simp add: build_0 build_01 build_012 knn_tree_012 find_50_tree_012)
qed

text \<open>
  Claim C7, as the code has it: whatever number \<^verbatim>\<open>choice\<close> draws and with any
  bound of at least seven iterations, inserting \<open>0\<close>, \<open>1\<close> and \<open>2\<close> succeeds and builds
  the tree above; the following \<^verbatim>\<open>insert(100)\<close> raises \<^verbatim>\<open>IndexError\<close> in its first
  iteration, because \<open>100\<close> is farther from the root than \<open>2 ** 6\<close> and the list of
  possible parents is empty.
\<close>

theorem scenario_insert_100_raises_IndexError:
  "insert_ct (7 + n) tree_empty r0 0 = Some (Inr tree_0)
   \<and> insert_ct (7 + n) tree_0 r1 1 = Some (Inr tree_01)
   \<and> insert_ct (7 + n) tree_01 r2 2 = Some (Inr tree_012)
   \<and> insert_ct (Suc n) tree_012 r3 100 = Some (Inl IndexError)"
  using insert_ct_mono[OF build_01[of r1], of n] insert_ct_mono[OF build_012[of r2], of n]
  by (simp add: build_0 insert_100_tree_012)

section \<open>Levels visited by one call\<close>

text \<open>
  The bounded traversals return what \<^verbatim>\<open>find_rec\<close> and the loop of \<^verbatim>\<open>knn_iter\<close>
  return, whenever the bound lets them finish; and they finish when the bound is
  at least the number of levels from \<open>i\<close> down to \<open>minlevel - 1\<close>, respectively
  the number of levels of the loop.
\<close>

lemma find_rec_bounded_sound:
  "find_rec_bounded n T p Qi ds i = Some res \<Longrightarrow> find_rec T p Qi ds i = res"
proof (induction n arbitrary: Qi ds i)
  case 0
  then show ?case by simp
next
  case (Suc n)
  show ?case
    using Suc.prems Suc.IH
    by (subst find_rec.simps) (auto split: prod.splits sum.splits if_splits)
qed

lemma find_rec_bounded_enough:
  "nat (i - minlevel T + 1) < n \<Longrightarrow>
   find_rec_bounded n T p Qi ds i = Some (find_rec T p Qi ds i)"
proof (induction n arbitrary: Qi ds i)
  case 0
  then show ?case by simp
next
  case (Suc n)
  have step: "nat (i - 1 - minlevel T + 1) < n" if "\<not> i < minlevel T"
    using that Suc.prems by linarith
  have ih: "find_rec_bounded n T p Qi' ds' (i - 1) = Some (find_rec T p Qi' ds' (i - 1))"
    if "\<not> i < minlevel T" for Qi' ds'
    using Suc.IH[OF step[OF that]] .
  show ?case
    by (subst find_rec.simps) (auto simp add: ih split: prod.splits sum.splits)
qed

lemma knn_loop_bounded_sound:
  "knn_loop_bounded n T p k Qi ds levels = Some res \<Longrightarrow> knn_loop T p k Qi ds levels = res"
proof (induction n arbitrary: Qi ds levels)
  case 0
  then show ?case by (cases levels) simp_all
next
  case (Suc n)
  show ?case
  proof (cases levels)
    case Nil
    with Suc.prems show ?thesis by simp
  next
    case (Cons i ls)
    with Suc.prems Suc.IH show ?thesis
      by (auto simp add: Let_def split: prod.splits sum.splits if_splits)
  qed
qed

lemma knn_loop_bounded_enough:
  "length levels \<le> n \<Longrightarrow>
   knn_loop_bounded n T p k Qi ds levels = Some (knn_loop T p k Qi ds levels)"
proof (induction n arbitrary: Qi ds levels)
  case 0
  then show ?case by simp
next
  case (Suc n)
  show ?case
  proof (cases levels)
    case Nil
    then show ?thesis by simp
  next
    case (Cons i ls)
    with Suc.prems have "length ls \<le> n" by simp
    with Cons Suc.IH show ?thesis
      by (auto simp add: Let_def split: prod.splits sum.splits)
  qed
qed

text \<open>
  Claim C8, as stated, fails. On the tree holding only \<open>0\<close>, where
  \<open>maxlevel - minlevel + 1 = 1\<close>: the loop of \<^verbatim>\<open>insert(1)\<close> is not done after one
  iteration, nor after six, and returns in the seventh, at level \<open>-1\<close>; and
  \<^verbatim>\<open>find(50)\<close> is not done after visiting one level, it raises its \<^verbatim>\<open>ValueError\<close>
  at the second, level \<open>minlevel - 1\<close>. On the tree holding \<open>0\<close> and \<open>1\<close>, where
  \<open>maxlevel - minlevel + 1 = 6\<close>, the loop of \<^verbatim>\<open>knn_insert(2, 2)\<close> is not done after
  six iterations.
\<close>

theorem insert_visits_more_levels:
  "nat (maxlevel tree_0 - minlevel tree_0 + 1) = 1
   \<and> insert_ct 1 tree_0 0 1 = None
   \<and> insert_ct 6 tree_0 0 1 = None
   \<and> insert_ct 7 tree_0 0 1 = Some (Inr tree_01)
   \<and> find_bounded 1 tree_0 50 = None
   \<and> find_bounded 2 tree_0 50 = Some (Inl ValueError)
   \<and> find_ct tree_0 50 = Inl ValueError
   \<and> nat (maxlevel tree_01 - minlevel tree_01 + 1) = 6
   \<and> knn_insert 6 tree_01 0 2 2 = None"
proof -
  have a: "insert_ct 1 tree_0 0 1 = None"
    by (simp add: tree_0_def eval_defs)
  have b: "insert_ct 6 tree_0 0 1 = None"
    by (simp add: tree_0_def eval_defs eval_nat_numeral)
  have c: "nat (maxlevel tree_0 - minlevel tree_0 + 1) = 1"
    by (simp add: tree_0_def)
  have d: "find_bounded 1 tree_0 50 = None"
    by (simp add: find_bounded_def tree_0_def eval_defs)
  have e: "find_bounded 2 tree_0 50 = Some (Inl ValueError)"
    by (simp add: find_bounded_def tree_0_def eval_defs eval_nat_numeral)
  have f: "find_ct tree_0 50 = Inl ValueError"
    by (simp add: tree_0_def eval_defs)
  have g: "nat (maxlevel tree_01 - minlevel tree_01 + 1) = 6"
    by (simp add: tree_01_def)
  have h: "knn_insert 6 tree_01 0 2 2 = None"
    by (simp add: tree_01_def eval_defs eval_nat_numeral)
  from a b c d e f g h show ?thesis by (simp add: build_01)
qed

text \<open>
  Claim C8, for the two read-only traversals, as the code has it. \<^verbatim>\<open>knn\<close>
  visits at most \<open>maxlevel - minlevel + 1\<close> levels: within that bound the bounded
  traversal returns the very result of \<^verbatim>\<open>knn\<close>. \<^verbatim>\<open>find\<close> visits at most
  \<open>maxlevel - minlevel + 2\<close> levels, one more, because \<^verbatim>\<open>find_rec\<close> expands and
  prunes level \<open>minlevel - 1\<close> before its test \<^verbatim>\<open>i < self.minlevel\<close> ends the
  recursion. Both bounds depend on the level range only, not on the stored points.
\<close>

theorem knn_and_find_bounded_by_level_range:
  "knn_bounded (nat (maxlevel T - minlevel T + 1)) T p k = Some (knn T p k)
   \<and> find_bounded (Suc (nat (maxlevel T - minlevel T + 1))) T p = Some (find_ct T p)"
proof -
  have len: "length (rev [minlevel T..maxlevel T]) \<le> nat (maxlevel T - minlevel T + 1)"
    by simp
  have a: "knn_bounded (nat (maxlevel T - minlevel T + 1)) T p k = Some (knn T p k)"
    by (auto simp add: knn_bounded_def knn_def knn_iter_def knn_levels_def
          knn_loop_bounded_enough[OF len] split: option.splits sum.splits)
  have "find_rec_bounded (Suc (nat (maxlevel T - minlevel T + 1))) T p Qi ds (maxlevel T)
          = Some (find_rec T p Qi ds (maxlevel T))" for Qi ds
    by (rule find_rec_bounded_enough) simp
  then have b: "find_bounded (Suc (nat (maxlevel T - minlevel T + 1))) T p = Some (find_ct T p)"
    by (simp add: find_bounded_def find_ct_def split: option.splits del: find_rec_bounded.simps)
  from a b show ?thesis by simp
qed

section \<open>Insufficient maxlevel\<close>

lemma fold_min_gt: "c < fold min xs (x::real) \<longleftrightarrow> c < x \<and> (\<forall>y\<in>set xs. c < y)"
  by (induction xs arbitrary: x) auto

text \<open>
  Claim C6, as the code has it. In a tree with a positive base, let \<open>p\<close> be farther
  than \<open>base ** maxlevel\<close> from the root and from each child of the root at level
  \<open>maxlevel\<close>. Then \<^verbatim>\<open>insert(p)\<close> ends in its first iteration: when \<open>p\<close> is within
  \<open>base ** (maxlevel + 1)\<close> of the root it is attached under the root at level
  \<open>maxlevel + 1\<close>, with no error; otherwise the list of possible parents is empty
  and \<^verbatim>\<open>choice\<close> raises \<^verbatim>\<open>IndexError\<close>.
\<close>

theorem insert_beyond_maxlevel:
  assumes "root_node T = Some rt" and "0 < base T"
    and "base T powi maxlevel T < distance T p (data (nodes T ! rt))"
    and "\<forall>q\<in>set (getOnlyChildren (nodes T ! rt) (maxlevel T)).
           base T powi maxlevel T < distance T p (data (nodes T ! q))"
  shows "insert_ct (Suc n) T r p =
     (if distance T p (data (nodes T ! rt)) \<le> base T powi (maxlevel T + 1)
      then Some (Inr (T\<lparr>minlevel := min (minlevel T) (maxlevel T + 1),
                        nodes := addChild (nodes T @ [Node_init p]) rt (length (nodes T))
                                   (maxlevel T + 1)\<rparr>))
      else Some (Inl IndexError))"
proof -
  let ?d0 = "distance T p (data (nodes T ! rt))"
  let ?ds = "map (\<lambda>q. distance T p (data (nodes T ! q)))
               (getOnlyChildren (nodes T ! rt) (maxlevel T))"
  have g: "getChildrenDist T p [rt] [?d0] (maxlevel T)
             = (rt # getOnlyChildren (nodes T ! rt) (maxlevel T), ?d0 # ?ds)"
    by (simp add: getChildrenDist_def Let_def)
  have pos: "0 < base T powi maxlevel T"
    using assms(2) by simp
  have far: "base T powi maxlevel T < fold min ?ds ?d0"
    using assms(3,4) by (simp add: fold_min_gt)
  with pos have nz: "fold min ?ds ?d0 \<noteq> 0" by linarith
  have nr: "\<not> pow_raises (base T) (maxlevel T)"
    using assms(2) by (simp add: pow_raises_def)
  show ?thesis
    using assms(1) g far nz nr
    by (simp add: insert_ct_def insert_iter_def choice_def Let_def)
qed


text \<open>
  On the tree holding only \<open>0\<close> (\<open>2 ** 5 = 32\<close>, \<open>2 ** 6 = 64\<close>): \<^verbatim>\<open>insert(100)\<close>
  raises \<^verbatim>\<open>IndexError\<close>, and \<^verbatim>\<open>insert(50)\<close> attaches \<open>50\<close> at level \<open>6\<close>.
\<close>

theorem insert_beyond_maxlevel_witness:
  "root_node tree_0 = Some 0 \<and> 0 < base tree_0
   \<and> base tree_0 powi maxlevel tree_0 < distance tree_0 100 (data (nodes tree_0 ! 0))
   \<and> base tree_0 powi maxlevel tree_0 < distance tree_0 50 (data (nodes tree_0 ! 0))
   \<and> getOnlyChildren (nodes tree_0 ! 0) (maxlevel tree_0) = []
   \<and> insert_ct (Suc 0) tree_0 0 100 = Some (Inl IndexError)
   \<and> insert_ct (Suc 0) tree_0 0 50 = Some (Inr tree_0_50)"
proof -
  have rt: "root_node tree_0 = Some 0" and b: "0 < base tree_0"
    and ch: "getOnlyChildren (nodes tree_0 ! 0) (maxlevel tree_0) = []"
    and f100: "base tree_0 powi maxlevel tree_0 < distance tree_0 100 (data (nodes tree_0 ! 0))"
    and f50: "base tree_0 powi maxlevel tree_0 < distance tree_0 50 (data (nodes tree_0 ! 0))"
    by (simp_all add: tree_0_def getOnlyChildren_def absd_def)
  have all100: "\<forall>q\<in>set (getOnlyChildren (nodes tree_0 ! 0) (maxlevel tree_0)).
           base tree_0 powi maxlevel tree_0 < distance tree_0 100 (data (nodes tree_0 ! q))"
    and all50: "\<forall>q\<in>set (getOnlyChildren (nodes tree_0 ! 0) (maxlevel tree_0)).
           base tree_0 powi maxlevel tree_0 < distance tree_0 50 (data (nodes tree_0 ! q))"
    by (simp_all add: ch)
  have a: "insert_ct (Suc 0) tree_0 0 100 = Some (Inl IndexError)"
    using insert_beyond_maxlevel[OF rt b f100 all100, of 0 0]
    by (simp add: tree_0_def absd_def)
  have c: "insert_ct (Suc 0) tree_0 0 50 = Some (Inr tree_0_50)"
    using insert_beyond_maxlevel[OF rt b f50 all50, of 0 0]
    by (simp add: tree_0_def tree_0_50_def absd_def addChild_def Node_init_def Let_def)
  from rt b ch f100 f50 a c show ?thesis by simp
qed

text \<open>
  Claim C6, as stated, fails on the tree holding only \<open>0\<close>: \<^verbatim>\<open>insert(100)\<close> raises
  \<^verbatim>\<open>IndexError\<close>, not \<^verbatim>\<open>InvalidLevelRangeError\<close>, and \<^verbatim>\<open>insert(50)\<close>, with
  \<open>50 > 2 ** 5\<close>, raises nothing at all.
\<close>

theorem insert_no_InvalidLevelRangeError:
  "insert_ct 1 tree_0 0 100 = Some (Inl IndexError)
   \<and> insert_ct 1 tree_0 0 100 \<noteq> Some (Inl InvalidLevelRangeError)
   \<and> insert_ct 1 tree_0 0 50 = Some (Inr tree_0_50)"
  by (simp add: tree_0_def tree_0_50_def eval_defs)

section \<open>The covering invariant\<close>

lemma attach_store:
  assumes "q < length h" and "length h \<notin> set (getOnlyChildren (h ! q) l)"
  shows "addChild (h @ [Node_init p]) q (length h) l =
           h[q := (h ! q)\<lparr>children := (children (h ! q))(l \<mapsto> getOnlyChildren (h ! q) l @ [length h])\<rparr>]
           @ [\<lparr>data = p, children = Map.empty, parent = Some q\<rparr>]"
  using assms
  by (auto simp add: addChild_def getOnlyChildren_def Node_init_def Let_def nth_append
        list_update_append split: option.splits)

lemma cover_inv_attach:
  assumes inv: "cover_inv T" and q: "q < length (nodes T)"
    and d: "distance T p (data (nodes T ! q)) \<le> base T powi l"
  shows "cover_inv (T\<lparr>minlevel := m,
            nodes := addChild (nodes T @ [Node_init p]) q (length (nodes T)) l\<rparr>)"
proof -
  let ?h = "nodes T"
  let ?c = "length (nodes T)"
  let ?h' = "addChild (?h @ [Node_init p]) q ?c l"
  from inv have ch: "\<And>r l c. r < ?c \<Longrightarrow> c \<in> set (getOnlyChildren (?h ! r) l) \<Longrightarrow>
      c < ?c \<and> parent (?h ! c) = Some r \<and>
      distance T (data (?h ! c)) (data (?h ! r)) \<le> base T powi l"
    unfolding cover_inv_def by blast
  from inv have par: "\<And>c. c < ?c \<Longrightarrow> root_node T \<noteq> Some c \<Longrightarrow>
      \<exists>r l. r < ?c \<and> parent (?h ! c) = Some r \<and> c \<in> set (getOnlyChildren (?h ! r) l)"
    unfolding cover_inv_def by blast
  from inv q obtain rt where rt: "root_node T = Some rt" "rt < ?c"
    unfolding cover_inv_def by (cases "root_node T") auto
  have fresh: "?c \<notin> set (getOnlyChildren (?h ! q) l)"
    using ch[OF q, of ?c l] by auto
  have st: "?h' = ?h[q := (?h ! q)\<lparr>children := (children (?h ! q))(l \<mapsto> getOnlyChildren (?h ! q) l @ [?c])\<rparr>]
           @ [\<lparr>data = p, children = Map.empty, parent = Some q\<rparr>]"
    by (rule attach_store[OF q fresh])
  have len: "length ?h' = Suc ?c"
    by (simp add: addChild_length)
  have G: "\<And>r l'. r \<le> ?c \<Longrightarrow> getOnlyChildren (?h' ! r) l' =
      (if r = ?c then [] else if r = q \<and> l' = l then getOnlyChildren (?h ! q) l @ [?c]
       else getOnlyChildren (?h ! r) l')"
    using q by (auto simp add: st nth_append nth_list_update getOnlyChildren_def)
  have P: "\<And>r. r \<le> ?c \<Longrightarrow> parent (?h' ! r) = (if r = ?c then Some q else parent (?h ! r))"
    using q by (auto simp add: st nth_append nth_list_update)
  have D: "\<And>r. r \<le> ?c \<Longrightarrow> data (?h' ! r) = (if r = ?c then p else data (?h ! r))"
    using q by (auto simp add: st nth_append nth_list_update)
  have part2: "c < Suc ?c \<and> parent (?h' ! c) = Some r \<and>
        distance T (data (?h' ! c)) (data (?h' ! r)) \<le> base T powi l'"
    if r: "r < Suc ?c" and c: "c \<in> set (getOnlyChildren (?h' ! r) l')" for r l' c
  proof -
    from r have r': "r \<le> ?c" by simp
    from c G[OF r'] have rn: "r \<noteq> ?c" by auto
    with r have rl: "r < ?c" by simp
    show ?thesis
    proof (cases "c = ?c")
      case True
      with c G[OF r', of l'] rn ch[OF rl, of ?c l'] have "r = q \<and> l' = l"
        by (auto split: if_splits)
      with True d q show ?thesis by (simp add: P D)
    next
      case False
      with c G[OF r', of l'] rn have "c \<in> set (getOnlyChildren (?h ! r) l')"
        by (auto split: if_splits)
      from ch[OF rl this] rl rn show ?thesis by (simp add: P D)
    qed
  qed
  have part3: "\<exists>r l'. r < Suc ?c \<and> parent (?h' ! c) = Some r \<and>
        c \<in> set (getOnlyChildren (?h' ! r) l')"
    if c: "c < Suc ?c" and nr: "root_node T \<noteq> Some c" for c
  proof (cases "c = ?c")
    case True
    have "q < Suc ?c \<and> parent (?h' ! c) = Some q \<and> c \<in> set (getOnlyChildren (?h' ! q) l)"
      using q True by (simp add: P G)
    then show ?thesis by blast
  next
    case False
    with c have cl: "c < ?c" by simp
    from par[OF cl nr] obtain r l0 where r: "r < ?c" "parent (?h ! c) = Some r"
      "c \<in> set (getOnlyChildren (?h ! r) l0)" by blast
    then have "r < Suc ?c \<and> parent (?h' ! c) = Some r \<and> c \<in> set (getOnlyChildren (?h' ! r) l0)"
      using cl by (auto simp add: P G)
    then show ?thesis by blast
  qed
  show ?thesis
    unfolding cover_inv_def
    using rt part2 part3 by (simp add: len)
qed

lemma cover_inv_init: "cover_inv (CoverTree_init dfun maxl b)"
  by (simp add: cover_inv_def CoverTree_init_def)

lemma cover_inv_first:
  assumes "cover_inv T" and "root_node T = None"
  shows "cover_inv (T\<lparr>root_node := Some (length (nodes T)), nodes := nodes T @ [Node_init p]\<rparr>)"
  using assms by (simp add: cover_inv_def Node_init_def getOnlyChildren_def)

lemma cover_set_ok_expand:
  assumes "cover_inv T" and "cover_set_ok T p Qi ds"
    and "getChildrenDist T p Qi ds i = (Q, Qds)"
  shows "cover_set_ok T p Q Qds"
proof -
  from assms(1) have ch: "\<And>r l c. r < length (nodes T) \<Longrightarrow>
      c \<in> set (getOnlyChildren (nodes T ! r) l) \<Longrightarrow> c < length (nodes T)"
    unfolding cover_inv_def by blast
  from assms(2) have v: "\<And>q. q \<in> set Qi \<Longrightarrow> q < length (nodes T)"
    and ds: "ds = map (\<lambda>q. distance T p (data (nodes T ! q))) Qi"
    by (simp_all add: cover_set_ok_def)
  from assms(3) have Q: "Q = Qi @ concat (map (\<lambda>n. getOnlyChildren (nodes T ! n) i) Qi)"
    and Qds: "Qds = ds @ map (\<lambda>q. distance T p (data (nodes T ! q)))
                          (concat (map (\<lambda>n. getOnlyChildren (nodes T ! n) i) Qi))"
    by (simp_all add: getChildrenDist_def Let_def)
  have "\<forall>q\<in>set Q. q < length (nodes T)"
    unfolding Q using v ch by auto
  moreover have "Qds = map (\<lambda>q. distance T p (data (nodes T ! q))) Q"
    unfolding Q Qds ds by simp
  ultimately show ?thesis by (simp add: cover_set_ok_def)
qed

lemma cover_set_ok_filter:
  assumes "cover_set_ok T p Q Qds"
  shows "cover_set_ok T p (map fst (filter P (zip Q Qds))) (map snd (filter P (zip Q Qds)))"
proof -
  let ?f = "\<lambda>q. distance T p (data (nodes T ! q))"
  from assms have Qds: "Qds = map ?f Q" and v: "\<forall>q\<in>set Q. q < length (nodes T)"
    by (simp_all add: cover_set_ok_def)
  have z: "zip Q Qds = map (\<lambda>q. (q, ?f q)) Q"
    unfolding Qds by (induction Q) simp_all
  show ?thesis
    using v unfolding cover_set_ok_def z by (simp add: filter_map comp_def)
qed

lemma choice_parent:
  assumes "cover_set_ok T p Qi ds"
    and "choice (map fst (filter (\<lambda>(q, d). d \<le> b) (zip Qi ds))) r = Inr q"
  shows "q < length (nodes T) \<and> distance T p (data (nodes T ! q)) \<le> b"
proof -
  let ?f = "\<lambda>q. distance T p (data (nodes T ! q))"
  let ?xs = "map fst (filter (\<lambda>(q, d). d \<le> b) (zip Qi ds))"
  from assms(1) have ds: "ds = map ?f Qi" and v: "\<forall>q\<in>set Qi. q < length (nodes T)"
    by (simp_all add: cover_set_ok_def)
  have z: "zip Qi ds = map (\<lambda>q. (q, ?f q)) Qi"
    unfolding ds by (induction Qi) simp_all
  have xs: "?xs = filter (\<lambda>q. ?f q \<le> b) Qi"
    unfolding z by (simp add: filter_map comp_def)
  from assms(2) have ne: "?xs \<noteq> []" and q: "q = ?xs ! (r mod length ?xs)"
    by (auto simp add: choice_def split: if_splits)
  from ne have "r mod length ?xs < length ?xs" by simp
  then have "q \<in> set ?xs" unfolding q by (rule nth_mem)
  then show ?thesis using v unfolding xs by auto
qed

lemma insert_loop_cover_inv:
  assumes "cover_inv T" and "cover_set_ok T p Qi ds"
    and "insert_loop n T r p Qi ds i = Some (Inr T')"
  shows "cover_inv T'"
  using assms
proof (induction n arbitrary: Qi ds i)
  case 0
  then show ?case by simp
next
  case (Suc n)
  obtain Q Qds where g: "getChildrenDist T p Qi ds i = (Q, Qds)"
    by (cases "getChildrenDist T p Qi ds i")
  from cover_set_ok_expand[OF Suc.prems(1,2) g] have ok: "cover_set_ok T p Q Qds" .
  from Suc.prems(3) g obtain dm where dm: "py_min Qds = Inr dm"
    by (auto split: sum.splits)
  show ?case
  proof (cases "dm = 0")
    case True
    with Suc.prems(3) g dm have "T' = T" by simp
    with Suc.prems(1) show ?thesis by simp
  next
    case nz: False
    with Suc.prems(3) g dm have nr: "\<not> pow_raises (base T) i"
      by (auto split: if_splits)
    show ?thesis
    proof (cases "dm > base T powi i")
      case True
      with Suc.prems(3) g dm nz nr obtain q where
        c: "choice (map fst (filter (\<lambda>(q, d). d \<le> base T powi (i + 1)) (zip Qi ds))) r = Inr q"
        and T': "T' = T\<lparr>minlevel := min (minlevel T) (i + 1),
                  nodes := addChild (nodes T @ [Node_init p]) q (length (nodes T)) (i + 1)\<rparr>"
        by (auto simp add: Let_def split: sum.splits)
      from choice_parent[OF Suc.prems(2) c] cover_inv_attach[OF Suc.prems(1)]
      show ?thesis unfolding T' by blast
    next
      case False
      with Suc.prems(3) g dm nz nr have
        "insert_loop n T r p (map fst (filter (\<lambda>(q, d). d \<le> base T powi i) (zip Q Qds)))
           (map snd (filter (\<lambda>(q, d). d \<le> base T powi i) (zip Q Qds))) (i - 1) = Some (Inr T')"
        by (simp add: Let_def)
      from Suc.IH[OF Suc.prems(1) cover_set_ok_filter[OF ok] this] show ?thesis .
    qed
  qed
qed

lemma insert_ct_cover_inv:
  assumes "cover_inv T" and "insert_ct n T r p = Some (Inr T')"
  shows "cover_inv T'"
proof (cases "root_node T")
  case None
  with assms(2) have "T' = T\<lparr>root_node := Some (length (nodes T)), nodes := nodes T @ [Node_init p]\<rparr>"
    by (simp add: insert_ct_def)
  with cover_inv_first[OF assms(1) None] show ?thesis by simp
next
  case (Some rt)
  with assms(1) have rt: "rt < length (nodes T)" by (simp add: cover_inv_def)
  then have ok: "cover_set_ok T p [rt] [distance T p (data (nodes T ! rt))]"
    by (simp add: cover_set_ok_def)
  from assms(2) Some have
    "insert_loop n T r p [rt] [distance T p (data (nodes T ! rt))] (maxlevel T) = Some (Inr T')"
    by (simp add: insert_ct_def insert_iter_def)
  from insert_loop_cover_inv[OF assms(1) ok this] show ?thesis .
qed

lemma knn_insert_loop_parent:
  assumes "cover_inv T" and "cover_set_ok T p Qi ds"
    and "\<And>pi0 par0. fp = Some (pi0, par0) \<Longrightarrow>
           par0 < length (nodes T) \<and> distance T p (data (nodes T ! par0)) \<le> base T powi pi0"
    and "knn_insert_loop n T r p k Qi ds i fp = Some (Inr (Qi', ds', pi', par))"
  shows "par < length (nodes T) \<and> distance T p (data (nodes T ! par)) \<le> base T powi pi'"
  using assms
proof (induction n arbitrary: Qi ds i fp)
  case 0
  then show ?case
    by (cases fp) (auto split: if_splits)
next
  case (Suc n)
  obtain Q Qds where g: "getChildrenDist T p Qi ds i = (Q, Qds)"
    by (cases "getChildrenDist T p Qi ds i")
  from cover_set_ok_expand[OF Suc.prems(1,2) g] have ok: "cover_set_ok T p Q Qds" .
  show ?case
  proof (cases fp)
    case None
    let ?zn = "filter (\<lambda>(q, d). d \<le> last (nsmallest k Qds) + base T powi i) (zip Q Qds)"
    let ?cands = "map fst (filter (\<lambda>(q, d). d \<le> base T powi (i + 1)) (zip Qi ds))"
    from Suc.prems(4) None g have ne: "nsmallest k Qds \<noteq> []" and nr: "\<not> pow_raises (base T) i"
      by (auto simp add: Let_def split: if_splits)
    show ?thesis
    proof (cases "hd (nsmallest k Qds) > base T powi i")
      case True
      with Suc.prems(4) None g ne nr obtain q where c: "choice ?cands r = Inr q"
        and rec: "knn_insert_loop n T r p k (map fst ?zn) (map snd ?zn) (i - 1) (Some (i + 1, q))
                    = Some (Inr (Qi', ds', pi', par))"
        by (auto simp add: Let_def split: sum.splits)
      from choice_parent[OF Suc.prems(2) c]
      have "\<And>pi0 par0. Some (i + 1, q) = Some (pi0, par0) \<Longrightarrow>
           par0 < length (nodes T) \<and> distance T p (data (nodes T ! par0)) \<le> base T powi pi0"
        by auto
      from Suc.IH[OF Suc.prems(1) cover_set_ok_filter[OF ok] this rec] show ?thesis .
    next
      case False
      with Suc.prems(4) None g ne nr have
        rec: "knn_insert_loop n T r p k (map fst ?zn) (map snd ?zn) (i - 1) None
                    = Some (Inr (Qi', ds', pi', par))"
        by (auto simp add: Let_def)
      have "\<And>pi0 par0. (None :: (int \<times> nat) option) = Some (pi0, par0) \<Longrightarrow>
           par0 < length (nodes T) \<and> distance T p (data (nodes T ! par0)) \<le> base T powi pi0"
        by simp
      from Suc.IH[OF Suc.prems(1) cover_set_ok_filter[OF ok] this rec] show ?thesis .
    qed
  next
    case (Some a)
    obtain pi0 par0 where a: "a = (pi0, par0)" by (cases a)
    show ?thesis
    proof (cases "i < minlevel T")
      case True
      with Suc.prems(4) Some a have "pi' = pi0" "par = par0" by simp_all
      with Suc.prems(3)[of pi0 par0] Some a show ?thesis by simp
    next
      case False
      with Suc.prems(4) Some a g obtain zn where
        zn: "select_within (base T) i (last (nsmallest k Qds)) (zip Q Qds) = Inr zn"
        and rec: "knn_insert_loop n T r p k (map fst zn) (map snd zn) (i - 1) fp
                    = Some (Inr (Qi', ds', pi', par))"
        by (auto simp add: Let_def split: if_splits sum.splits)
      from zn have "zn = filter (\<lambda>(q, d). d \<le> last (nsmallest k Qds) + base T powi i) (zip Q Qds)"
        by (auto simp add: select_within_def split: if_splits)
      with cover_set_ok_filter[OF ok] have "cover_set_ok T p (map fst zn) (map snd zn)"
        by simp
      from Suc.IH[OF Suc.prems(1) this Suc.prems(3) rec] show ?thesis by simp
    qed
  qed
qed

lemma knn_insert_cover_inv:
  assumes "cover_inv T" and "knn_insert n T r p k = Some (Inr (res, T'))"
  shows "cover_inv T'"
proof (cases "root_node T")
  case None
  with assms(2) show ?thesis by (simp add: knn_insert_def knn_insert_iter_def)
next
  case (Some rt)
  with assms(1) have rt: "rt < length (nodes T)" by (simp add: cover_inv_def)
  then have ok: "cover_set_ok T p [rt] [distance T p (data (nodes T ! rt))]"
    by (simp add: cover_set_ok_def)
  from assms(2) Some obtain Qi ds pi' par where
    loop: "knn_insert_loop n T r p k [rt] [distance T p (data (nodes T ! rt))] (maxlevel T) None
             = Some (Inr (Qi, ds, pi', par))"
    and T': "T' = T\<lparr>minlevel := min (minlevel T) pi',
               nodes := addChild (nodes T @ [Node_init p]) par (length (nodes T)) pi'\<rparr>"
    by (auto simp add: knn_insert_def knn_insert_iter_def Let_def split: option.splits sum.splits)
  have "\<And>pi0 par0. (None :: (int \<times> nat) option) = Some (pi0, par0) \<Longrightarrow>
         par0 < length (nodes T) \<and> distance T p (data (nodes T ! par0)) \<le> base T powi pi0"
    by simp
  from knn_insert_loop_parent[OF assms(1) ok this loop] cover_inv_attach[OF assms(1)]
  show ?thesis unfolding T' by blast
qed

lemma reachable_cover_inv: "reachable T \<Longrightarrow> cover_inv T"
proof (induction rule: reachable.induct)
  case (init dfun maxl b)
  show ?case by (rule cover_inv_init)
next
  case (ins T n r p T')
  then show ?case by (blast intro: insert_ct_cover_inv)
next
  case (knn_ins T n r p k res T')
  then show ?case by (blast intro: knn_insert_cover_inv)
qed

text \<open>
  Claim C4. In every tree built by the constructor and any sequence of \<^verbatim>\<open>insert\<close>
  and \<^verbatim>\<open>knn_insert\<close> calls, every stored node \<open>c\<close> but the root has a parent \<open>r\<close>
  and stands in a child list of \<open>r\<close>; and whenever \<open>c\<close> stands in the child list of
  \<open>r\<close> for level \<open>l\<close> (the parent is at level \<open>l\<close>, the node resides at level
  \<open>l - 1\<close>), the distance between their points is at most \<open>base ** l\<close>. For a base
  of at least \<open>1\<close> it is then at most \<open>base ** (l + 1)\<close> as well, which is the bound
  of the claim when "attached at level \<open>i\<close>" is read as "listed under level \<open>i\<close>".
\<close>

theorem covering_invariant:
  assumes "reachable T" and "c < length (nodes T)" and "root_node T \<noteq> Some c"
  shows "\<exists>r. parent (nodes T ! c) = Some r \<and> r < length (nodes T)
      \<and> (\<exists>l. c \<in> set (getOnlyChildren (nodes T ! r) l))
      \<and> (\<forall>l. c \<in> set (getOnlyChildren (nodes T ! r) l) \<longrightarrow>
            distance T (data (nodes T ! c)) (data (nodes T ! r)) \<le> base T powi l
            \<and> (1 \<le> base T \<longrightarrow>
                 distance T (data (nodes T ! c)) (data (nodes T ! r)) \<le> base T powi (l + 1)))"
proof -
  from reachable_cover_inv[OF assms(1)] have inv: "cover_inv T" .
  from inv assms(2,3) obtain r l0 where r: "r < length (nodes T)"
    "parent (nodes T ! c) = Some r" "c \<in> set (getOnlyChildren (nodes T ! r) l0)"
    unfolding cover_inv_def by blast
  have "distance T (data (nodes T ! c)) (data (nodes T ! r)) \<le> base T powi l
        \<and> (1 \<le> base T \<longrightarrow>
             distance T (data (nodes T ! c)) (data (nodes T ! r)) \<le> base T powi (l + 1))"
    if m: "c \<in> set (getOnlyChildren (nodes T ! r) l)" for l
  proof -
    from inv r(1) m have le: "distance T (data (nodes T ! c)) (data (nodes T ! r)) \<le> base T powi l"
      unfolding cover_inv_def by blast
    have "base T powi l \<le> base T powi (l + 1)" if "1 \<le> base T"
      using that by (intro power_int_increasing) simp_all
    with le show ?thesis by fastforce
  qed
  with r show ?thesis by blast
qed

text \<open>
  In the tree built from \<open>0\<close>, \<open>1\<close>, \<open>2\<close>, node \<open>2\<close> stands in the list of node \<open>1\<close> for
  level \<open>0\<close>, and their distance \<open>1\<close> is at most \<open>2 ** 0\<close>.
\<close>

theorem covering_invariant_witness:
  "reachable tree_012 \<and> (2::nat) < length (nodes tree_012) \<and> root_node tree_012 \<noteq> Some 2
   \<and> parent (nodes tree_012 ! 2) = Some 1
   \<and> 2 \<in> set (getOnlyChildren (nodes tree_012 ! 1) 0)
   \<and> distance tree_012 (data (nodes tree_012 ! 2)) (data (nodes tree_012 ! 1))
        \<le> base tree_012 powi 0
   \<and> distance tree_012 (data (nodes tree_012 ! 2)) (data (nodes tree_012 ! 1))
        \<le> base tree_012 powi (0 + 1)"
proof -
  have "reachable tree_empty"
    unfolding tree_empty_def by (rule reachable.init)
  then have "reachable tree_0" by (rule reachable.ins[OF _ build_0[of 0 0]])
  then have "reachable tree_01" by (rule reachable.ins[OF _ build_01[of 0]])
  then have re: "reachable tree_012" by (rule reachable.ins[OF _ build_012[of 0]])
  have c: "(2::nat) < length (nodes tree_012)" and nr: "root_node tree_012 \<noteq> Some 2"
    and par: "parent (nodes tree_012 ! 2) = Some 1"
    and m: "2 \<in> set (getOnlyChildren (nodes tree_012 ! 1) 0)"
    and b: "1 \<le> base tree_012"
    by (simp_all add: tree_012_def getOnlyChildren_def)
  from covering_invariant[OF re c nr] par m b
  have "distance tree_012 (data (nodes tree_012 ! 2)) (data (nodes tree_012 ! 1))
          \<le> base tree_012 powi 0
      \<and> distance tree_012 (data (nodes tree_012 ! 2)) (data (nodes tree_012 ! 1))
          \<le> base tree_012 powi (0 + 1)"
    by auto
  with re c nr par m show ?thesis by simp
qed

end
